theory Spec2Isabelle
  imports Main "HOL-Library.Multiset"
begin

section \<open>The job scheduling subsystem of clari\<close>

text \<open>
  The development embeds \<^verbatim>\<open>src/task_queue.py\<close> (the dataclass \<^verbatim>\<open>Task\<close> and
  the class \<^verbatim>\<open>TaskQueue\<close>) and \<^verbatim>\<open>src/storage.py\<close> (the class
  \<^verbatim>\<open>Storage\<close>). Everything outside the Python objects (the sqlite file
  \<^verbatim>\<open>data/tasks.db\<close>, the directory \<^verbatim>\<open>results/\<close>) is one explicit
  record, passed through every operation that touches it. An exception is a value: an
  operation returns what it raised or what it returned, next to the state it left behind.
\<close>

subsection \<open>Values\<close>

text \<open>
  The payload of a task (\<^verbatim>\<open>Task.result\<close>) is a Python value that
  \<^verbatim>\<open>json.dumps\<close> accepts; \<open>JNull\<close> is \<^verbatim>\<open>None\<close>. The text that
  \<^verbatim>\<open>json.dumps\<close> produces is not modelled: a stored payload stands for its text.
\<close>

datatype json =
    JNull
  | JBool bool
  | JInt int
  | JStr string
  | JList "json list"
  | JDict "(string \<times> json) list"

text \<open>The truth value Python gives a payload in \<^verbatim>\<open>if task.result\<close>.\<close>

fun truthy :: "json \<Rightarrow> bool" where
  "truthy JNull = False"
| "truthy (JBool b) = b"
| "truthy (JInt n) = (n \<noteq> 0)"
| "truthy (JStr s) = (s \<noteq> [])"
| "truthy (JList xs) = (xs \<noteq> [])"
| "truthy (JDict kvs) = (kvs \<noteq> [])"

text \<open>
  A \<^verbatim>\<open>pathlib.Path\<close> is kept as the text it was built from (the normalisation that
  \<^verbatim>\<open>pathlib\<close> applies to the text is not modelled).
\<close>

datatype path = Path string

fun str_path :: "path \<Rightarrow> string" where
  "str_path (Path s) = s"

text \<open>A \<^verbatim>\<open>datetime\<close> is its fields, as in Python.\<close>

record datetime =
  year :: nat
  month :: nat
  day :: nat
  hour :: nat
  minute :: nat
  second :: nat
  microsecond :: nat

definition digit_char :: "nat \<Rightarrow> char" where
  "digit_char d = ''0123456789'' ! d"

fun str_nat :: "nat \<Rightarrow> string" where
  "str_nat n = (if n < 10 then [digit_char n] else str_nat (n div 10) @ [digit_char (n mod 10)])"

declare str_nat.simps [simp del]

definition zfill :: "nat \<Rightarrow> string \<Rightarrow> string" where
  "zfill w s = replicate (w - length s) (CHR ''0'') @ s"

text \<open>\<^verbatim>\<open>strftime('%Y%m%d_%H%M%S')\<close>, for the years (from 1000 on) that the clock gives.\<close>

definition strftime :: "datetime \<Rightarrow> string" where
  "strftime d =
     zfill 4 (str_nat (year d)) @ zfill 2 (str_nat (month d)) @ zfill 2 (str_nat (day d)) @ ''_'' @
     zfill 2 (str_nat (hour d)) @ zfill 2 (str_nat (minute d)) @ zfill 2 (str_nat (second d))"

definition isoformat :: "datetime \<Rightarrow> string" where
  "isoformat d =
     zfill 4 (str_nat (year d)) @ ''-'' @ zfill 2 (str_nat (month d)) @ ''-'' @
     zfill 2 (str_nat (day d)) @ ''T'' @
     zfill 2 (str_nat (hour d)) @ '':'' @ zfill 2 (str_nat (minute d)) @ '':'' @
     zfill 2 (str_nat (second d)) @
     (if microsecond d = 0 then [] else ''.'' @ zfill 6 (str_nat (microsecond d)))"

text \<open>Exceptions; \<open>str_of\<close> is Python's \<^verbatim>\<open>str(e)\<close>, the message.\<close>

datatype error =
    AttributeError string
  | OperationalError string
  | OverflowError string
  | OSError string
  | RunnerError string

fun str_of :: "error \<Rightarrow> string" where
  "str_of (AttributeError m) = m"
| "str_of (OperationalError m) = m"
| "str_of (OverflowError m) = m"
| "str_of (OSError m) = m"
| "str_of (RunnerError m) = m"

subsection \<open>The dataclass \<^verbatim>\<open>Task\<close>\<close>

text \<open>
  The fields \<^verbatim>\<open>id\<close> and \<^verbatim>\<open>type\<close> are primed, the other names are the
  source's. The status is the string the source compares.
\<close>

record Task =
  id' :: string
  type' :: string
  input_path :: path
  status :: string
  created_at :: datetime
  result :: json
  priority :: int

text \<open>
  The constructor call of \<^verbatim>\<open>add_task\<close>,
  \<^verbatim>\<open>Task(id=.., type=.., input_path=.., priority=..)\<close>. The three other fields take the
  defaults of the class body. The default of \<^verbatim>\<open>created_at\<close> is written
  \<^verbatim>\<open>datetime.now()\<close> there: Python evaluates it once, when the class statement runs,
  and every later construction receives that one value. It is the parameter
  \<open>class_now\<close>.
\<close>

definition mk_Task :: "datetime \<Rightarrow> string \<Rightarrow> string \<Rightarrow> path \<Rightarrow> int \<Rightarrow> Task" where
  "mk_Task class_now i ty p prio =
     \<lparr>id' = i, type' = ty, input_path = p, status = ''pending'',
      created_at = class_now, result = JNull, priority = prio\<rparr>"

subsection \<open>The world outside the objects\<close>

text \<open>A row of the table \<^verbatim>\<open>tasks\<close>; \<open>None\<close> in \<open>col_result\<close> is SQL NULL.\<close>

record row =
  col_id :: string
  col_type :: string
  col_input_path :: string
  col_status :: string
  col_created_at :: datetime
  col_result :: "json option"
  col_priority :: int

text \<open>What was attempted on the outside, in order, whether it went through or not.\<close>

datatype effect = StoreWrite string | ArtifactWrite string

text \<open>
  \<open>db\<close> is the table in the order of its rowids; \<open>db_fault\<close>, when set, is the
  message of the \<^verbatim>\<open>sqlite3.OperationalError\<close> that every statement raises (a locked or
  unwritable file); \<open>files\<close> maps a file name to the value dumped into it;
  \<open>fs_fault\<close>, when set, is the message of the \<^verbatim>\<open>OSError\<close> that writing under
  \<^verbatim>\<open>results/\<close> raises.
\<close>

record World =
  db :: "row list"
  db_fault :: "string option"
  files :: "string \<rightharpoonup> json"
  fs_fault :: "string option"
  effects :: "effect list"

subsection \<open>\<^verbatim>\<open>Storage\<close>\<close>

record Storage =
  db_path :: string

definition Storage_init :: Storage where
  "Storage_init = \<lparr>db_path = ''data/tasks.db''\<rparr>"

definition row_of :: "Task \<Rightarrow> row" where
  "row_of task =
     \<lparr>col_id = id' task, col_type = type' task, col_input_path = str_path (input_path task),
      col_status = status task, col_created_at = created_at task,
      col_result = (if truthy (result task) then Some (result task) else None),
      col_priority = priority task\<rparr>"

text \<open>
  \<^verbatim>\<open>INSERT OR REPLACE\<close> on the primary key \<^verbatim>\<open>id\<close>: a row with the same id is
  deleted, and the new row receives the next rowid, so it is the last of the table.
\<close>

definition insert_or_replace :: "row \<Rightarrow> row list \<Rightarrow> row list" where
  "insert_or_replace r rs = filter (\<lambda>x. col_id x \<noteq> col_id r) rs @ [r]"

text \<open>sqlite3 binds a Python int only when it fits its 64-bit INTEGER.\<close>

definition fits_int64 :: "int \<Rightarrow> bool" where
  "fits_int64 n = (- (2 ^ 63) \<le> n \<and> n < 2 ^ 63)"

definition save_task :: "World \<Rightarrow> Task \<Rightarrow> (error + unit) \<times> World" where
  "save_task w task =
     (let w1 = w\<lparr>effects := effects w @ [StoreWrite (id' task)]\<rparr> in
      case db_fault w of
        Some msg \<Rightarrow> (Inl (OperationalError msg), w1)
      | None \<Rightarrow>
          if \<not> fits_int64 (priority task)
          then (Inl (OverflowError ''Python int too large to convert to SQLite INTEGER''), w1)
          else (Inr (), w1\<lparr>db := insert_or_replace (row_of task) (db w)\<rparr>))"

text \<open>
  \<^verbatim>\<open>SELECT * FROM tasks WHERE status='pending' ORDER BY priority DESC\<close>. The only sort
  key is the priority. SQL leaves the order of rows of equal priority open; sqlite scans the
  table by rowid and sorts stably, which is what \<open>sort_key\<close> on the table does.
\<close>

definition get_pending_tasks :: "World \<Rightarrow> error + row list" where
  "get_pending_tasks w =
     (case db_fault w of
        Some msg \<Rightarrow> Inl (OperationalError msg)
      | None \<Rightarrow> Inr (sort_key (\<lambda>r. - col_priority r) [r \<leftarrow> db w. col_status r = ''pending'']))"





subsection \<open>\<^verbatim>\<open>TaskQueue\<close>: construction and \<^verbatim>\<open>add_task\<close>\<close>

text \<open>
  \<open>storage\<close> is the attribute \<^verbatim>\<open>self.storage\<close>: \<open>None\<close> when no assignment
  has created it. \<^verbatim>\<open>__init__\<close> assigns \<^verbatim>\<open>tasks\<close>, \<^verbatim>\<open>client\<close> and
  \<^verbatim>\<open>running\<close> and nothing else. The client is a parameter of the operations that
  call it.
\<close>

record TaskQueue =
  tasks :: "Task list"
  running :: bool
  storage :: "Storage option"

definition TaskQueue_init :: TaskQueue where
  "TaskQueue_init = \<lparr>tasks = [], running = False, storage = None\<rparr>"

definition mint_id :: "string \<Rightarrow> nat \<Rightarrow> datetime \<Rightarrow> string" where
  "mint_id task_type n now = task_type @ ''_'' @ str_nat n @ ''_'' @ strftime now"

text \<open>
  \<^verbatim>\<open>add_task\<close>; \<open>now\<close> is the clock at the call. Reading the attribute
  \<^verbatim>\<open>self.storage\<close> of a queue that has none raises; an exception of
  \<^verbatim>\<open>save_task\<close> leaves the method before \<^verbatim>\<open>self.tasks.append\<close>.
\<close>

definition add_task ::
  "datetime \<Rightarrow> datetime \<Rightarrow> World \<Rightarrow> TaskQueue \<Rightarrow> string \<Rightarrow> path \<Rightarrow> int \<Rightarrow>
     (error + string) \<times> TaskQueue \<times> World" where
  "add_task class_now now w q task_type p prio =
     (let task_id = mint_id task_type (length (tasks q)) now;
          task = mk_Task class_now task_id task_type p prio
      in case storage q of
           None \<Rightarrow> (Inl (AttributeError ''storage''), q, w)
         | Some st \<Rightarrow>
             (case save_task w task of
                (Inl e, w') \<Rightarrow> (Inl e, q, w')
              | (Inr u, w') \<Rightarrow> (Inr task_id, q\<lparr>tasks := tasks q @ [task]\<rparr>, w')))"

subsection \<open>\<^verbatim>\<open>TaskQueue.watch_directory\<close>\<close>

text \<open>
  The handler that \<^verbatim>\<open>watch_directory\<close> registers, \<^verbatim>\<open>on_modified\<close>, on the
  queue that \<^verbatim>\<open>watch_directory\<close> was called on; \<open>src_path\<close> is
  \<^verbatim>\<open>event.src_path\<close>.
\<close>

definition endswith :: "string \<Rightarrow> string \<Rightarrow> bool" where
  "endswith s suffix = (length suffix \<le> length s \<and> drop (length s - length suffix) s = suffix)"

definition on_modified ::
  "datetime \<Rightarrow> datetime \<Rightarrow> World \<Rightarrow> TaskQueue \<Rightarrow> string \<Rightarrow> (error + unit) \<times> TaskQueue \<times> World" where
  "on_modified class_now now w q src_path =
     (if endswith src_path ''.py'' then
        (case add_task class_now now w q ''code_improvement'' (Path src_path) 5 of
           (Inl e, q', w') \<Rightarrow> (Inl e, q', w')
         | (Inr task_id, q', w') \<Rightarrow> (Inr (), q', w'))
      else (Inr (), q, w))"

subsection \<open>\<^verbatim>\<open>TaskQueue.process_task\<close> and its collaborators\<close>

text \<open>
  What \<^verbatim>\<open>process_task\<close> calls: \<^verbatim>\<open>open(..).read()\<close> and the three methods of
  the client. Each returns a value or raises.
\<close>

record Env =
  read_file :: "path \<Rightarrow> error + string"
  generate_code :: "string \<Rightarrow> error + json"
  suggest_tests :: "string \<Rightarrow> error + json"
  analyze_dependencies :: "path \<Rightarrow> error + json"

text \<open>
  The client of \<^verbatim>\<open>src/openrouter_client.py\<close>: its API key is \<^verbatim>\<open>None\<close>, so
  \<^verbatim>\<open>generate_code\<close> returns the empty list of improvements, and it has no method
  \<^verbatim>\<open>suggest_tests\<close> or \<^verbatim>\<open>analyze_dependencies\<close>. Files hold \<^verbatim>\<open>x = 1\<close>.
\<close>

definition source_env :: Env where
  "source_env =
     \<lparr>read_file = (\<lambda>p. Inr ''x = 1''),
      generate_code = (\<lambda>prompt. Inr (JDict [(''improvements'', JList [])])),
      suggest_tests = (\<lambda>code. Inl (AttributeError ''suggest_tests'')),
      analyze_dependencies = (\<lambda>p. Inl (AttributeError ''analyze_dependencies''))\<rparr>"

text \<open>
  Lines 53 to 64: the payload that is assigned to \<^verbatim>\<open>task.result\<close>, or the exception.
  A type that is none of the three leaves the payload as it is.
\<close>

definition run_job :: "Env \<Rightarrow> Task \<Rightarrow> error + json" where
  "run_job env task =
     (if type' task = ''code_improvement'' then
        (case read_file env (input_path task) of
           Inl e \<Rightarrow> Inl e
         | Inr code \<Rightarrow>
             generate_code env (''Improve this code:'' @ [CHR 0x0A] @ ''```python'' @ [CHR 0x0A] @
                                code @ [CHR 0x0A] @ ''```''))
      else if type' task = ''test_generation'' then
        (case read_file env (input_path task) of
           Inl e \<Rightarrow> Inl e
         | Inr code \<Rightarrow> suggest_tests env code)
      else if type' task = ''dependency_check'' then analyze_dependencies env (input_path task)
      else Inr (result task))"

text \<open>\<^verbatim>\<open>_save_result\<close>: one file under \<^verbatim>\<open>results/\<close>, named from the id.\<close>

definition result_file :: "Task \<Rightarrow> string" where
  "result_file task = ''results/'' @ id' task @ ''_result.json''"

definition save_result :: "World \<Rightarrow> Task \<Rightarrow> (error + unit) \<times> World" where
  "save_result w task =
     (let w1 = w\<lparr>effects := effects w @ [ArtifactWrite (result_file task)]\<rparr> in
      case fs_fault w of
        Some msg \<Rightarrow> (Inl (OSError msg), w1)
      | None \<Rightarrow>
          (Inr (), w1\<lparr>files := (files w)(result_file task \<mapsto>
             JDict [(''task_id'', JStr (id' task)),
                    (''type'', JStr (type' task)),
                    (''input_path'', JStr (str_path (input_path task))),
                    (''status'', JStr (status task)),
                    (''created_at'', JStr (isoformat (created_at task))),
                    (''result'', result task)])\<rparr>))"

text \<open>
  \<^verbatim>\<open>process_task\<close> in two parts: the assignment of line 52, which the coroutine
  performs before it first suspends, and the rest, with the \<^verbatim>\<open>except\<close> branch. An
  exception of \<^verbatim>\<open>_save_result\<close> is raised inside the \<^verbatim>\<open>try\<close> as well. The
  method itself never raises.
\<close>

definition start_task :: "Task \<Rightarrow> Task" where
  "start_task task = task\<lparr>status := ''running''\<rparr>"

definition fail_task :: "Task \<Rightarrow> error \<Rightarrow> Task" where
  "fail_task task e = task\<lparr>status := ''failed'', result := JDict [(''error'', JStr (str_of e))]\<rparr>"

definition finish_task :: "Env \<Rightarrow> Task \<times> World \<Rightarrow> Task \<times> World" where
  "finish_task env tw =
     (case tw of (task, w) \<Rightarrow>
        (case run_job env task of
           Inl e \<Rightarrow> (fail_task task e, w)
         | Inr r \<Rightarrow>
             (let t2 = task\<lparr>result := r, status := ''completed''\<rparr> in
              case save_result w t2 of
                (Inl e, w') \<Rightarrow> (fail_task t2 e, w')
              | (Inr u, w') \<Rightarrow> (t2, w'))))"

definition process_task :: "Env \<Rightarrow> Task \<times> World \<Rightarrow> Task \<times> World" where
  "process_task env tw = (case tw of (task, w) \<Rightarrow> finish_task env (start_task task, w))"

subsection \<open>The progress tracker\<close>

text \<open>
  Modelled from the spec: \<^verbatim>\<open>progress_tracker.py\<close> is not among the sources. The
  tracker is built with the number of jobs, counts the completed and the failed jobs as
  the scheduler reports them, and its summary is these counts.
\<close>

record Progress =
  total :: nat
  successful :: nat
  failed :: nat

definition ProgressTracker :: "nat \<Rightarrow> Progress" where
  "ProgressTracker n = \<lparr>total = n, successful = 0, failed = 0\<rparr>"

definition update :: "Progress \<Rightarrow> path \<Rightarrow> string \<Rightarrow> string \<Rightarrow> Progress" where
  "update pr p st msg =
     (if st = ''completed'' then pr\<lparr>successful := successful pr + 1\<rparr>
      else pr\<lparr>failed := failed pr + 1\<rparr>)"

definition get_summary :: "Progress \<Rightarrow> Progress" where
  "get_summary pr = pr"

subsection \<open>\<^verbatim>\<open>TaskQueue.run\<close>\<close>

text \<open>
  A task object is its position in \<^verbatim>\<open>self.tasks\<close>: \<^verbatim>\<open>pending_tasks\<close> and
  \<^verbatim>\<open>batch\<close> hold references to the objects of the list, and \<^verbatim>\<open>process_task\<close>
  mutates the object it is given.
\<close>

definition pending_tasks :: "Task list \<Rightarrow> nat list" where
  "pending_tasks ts = [i \<leftarrow> [0..<length ts]. status (ts ! i) = ''pending'']"

text \<open>
  \<^verbatim>\<open>await asyncio.gather(..)\<close> as one function: every coroutine of the batch has run
  to its end. Each touches its own task and, on success, its own file; here they run one
  after the other in the order of the batch. The interleavings are in the next subsection.
\<close>

definition gather :: "Env \<Rightarrow> nat list \<Rightarrow> Task list \<times> World \<Rightarrow> Task list \<times> World" where
  "gather env batch tw =
     fold (\<lambda>i (ts, w). case process_task env (ts ! i, w) of (t', w') \<Rightarrow> (ts[i := t'], w')) batch tw"

text \<open>Lines 100 to 106, one pass of the loop body after the \<^verbatim>\<open>break\<close> test.\<close>

definition run_batch :: "Env \<Rightarrow> TaskQueue \<times> World \<times> Progress \<Rightarrow> TaskQueue \<times> World \<times> Progress" where
  "run_batch env s =
     (case s of (q, w, pr) \<Rightarrow>
        (let batch = take 3 (pending_tasks (tasks q)) in
         case gather env batch (tasks q, w) of
           (ts', w') \<Rightarrow>
             (q\<lparr>tasks := ts'\<rparr>, w',
              fold (\<lambda>i p. update p (input_path (ts' ! i)) (status (ts' ! i))
                      (if status (ts' ! i) = ''completed'' then ''Completed'' else ''Failed''))
                   batch pr)))"

text \<open>
  Every coroutine ends with its task completed or failed, so a batch takes its members out
  of the pending ones: this is what makes the loop of \<^verbatim>\<open>run\<close> end.
\<close>

lemma finish_task_status:
  "status (fst (finish_task env (t, w))) = ''completed'' \<or> status (fst (finish_task env (t, w))) = ''failed''"
  by (cases "fs_fault w")
     (simp_all add: finish_task_def save_result_def fail_task_def Let_def split: sum.splits)

lemma process_task_not_pending: "status (fst (process_task env (t, w))) \<noteq> ''pending''"
  using finish_task_status [of env "start_task t" w] by (auto simp: process_task_def)


lemma finish_task_fs_fault: "fs_fault (snd (finish_task env (t, w))) = fs_fault w"
  by (cases "fs_fault w")
     (simp_all add: finish_task_def save_result_def Let_def split: sum.splits)

lemma finish_task_fst_cong:
  "fs_fault w = fs_fault v \<Longrightarrow> fst (finish_task env (t, w)) = fst (finish_task env (t, v))"
  by (cases "fs_fault v")
     (simp_all add: finish_task_def save_result_def Let_def split: sum.splits)

lemma process_task_fs_fault: "fs_fault (snd (process_task env (t, w))) = fs_fault w"
  by (simp add: process_task_def finish_task_fs_fault)

lemma process_task_fst_cong:
  "fs_fault w = fs_fault v \<Longrightarrow> fst (process_task env (t, w)) = fst (process_task env (t, v))"
  using finish_task_fst_cong [of w v env "start_task t"] by (simp add: process_task_def)

lemma gather_Nil: "gather env [] tw = tw"
  by (simp add: gather_def)

lemma gather_Cons:
  "gather env (i # b) (ts, w) =
     gather env b (ts[i := fst (process_task env (ts ! i, w))], snd (process_task env (ts ! i, w)))"
  by (simp add: gather_def split: prod.splits)

lemma gather_length: "length (fst (gather env b (ts, w))) = length ts"
  by (induction b arbitrary: ts w) (simp_all add: gather_Nil gather_Cons)

lemma gather_fs_fault: "fs_fault (snd (gather env b (ts, w))) = fs_fault w"
  by (induction b arbitrary: ts w) (simp_all add: gather_Nil gather_Cons process_task_fs_fault)


lemma gather_nth:
  "distinct b \<Longrightarrow> \<forall>i\<in>set b. i < length ts \<Longrightarrow> j < length ts \<Longrightarrow>
   fst (gather env b (ts, w)) ! j =
     (if j \<in> set b then fst (process_task env (ts ! j, w)) else ts ! j)"
proof (induction b arbitrary: ts w)
  case Nil
  then show ?case by (simp add: gather_Nil)
next
  case (Cons i b)
  let ?t = "fst (process_task env (ts ! i, w))"
  let ?w = "snd (process_task env (ts ! i, w))"
  have fault: "fs_fault ?w = fs_fault w"
    by (rule process_task_fs_fault)
  have ih: "fst (gather env b (ts[i := ?t], ?w)) ! j =
      (if j \<in> set b then fst (process_task env (ts[i := ?t] ! j, ?w)) else ts[i := ?t] ! j)"
    using Cons.IH [of "ts[i := ?t]" ?w] Cons.prems by simp
  show ?case
  proof (cases "j = i")
    case True
    then have "j \<notin> set b"
      using Cons.prems(1) by simp
    then show ?thesis
      using ih True Cons.prems(3) by (simp add: gather_Cons)
  next
    case False
    have "fst (process_task env (ts ! j, ?w)) = fst (process_task env (ts ! j, w))"
      by (rule process_task_fst_cong [OF fault])
    then show ?thesis
      using ih False by (simp add: gather_Cons)
  qed
qed

lemma pending_tasks_distinct: "distinct (pending_tasks ts)"
  by (simp add: pending_tasks_def)

lemma pending_tasks_bound: "i \<in> set (pending_tasks ts) \<Longrightarrow> i < length ts"
  by (simp add: pending_tasks_def)

lemma pending_tasks_status: "i \<in> set (pending_tasks ts) \<Longrightarrow> status (ts ! i) = ''pending''"
  by (simp add: pending_tasks_def)

lemma filter_not_take_distinct: "distinct xs \<Longrightarrow> filter (\<lambda>x. x \<notin> set (take n xs)) xs = drop n xs"
proof (induction xs arbitrary: n)
  case Nil
  then show ?case by simp
next
  case (Cons x xs)
  show ?case
  proof (cases n)
    case 0
    then show ?thesis by simp
  next
    case (Suc m)
    have "filter (\<lambda>y. y \<noteq> x \<and> y \<notin> set (take m xs)) xs = filter (\<lambda>y. y \<notin> set (take m xs)) xs"
      using Cons.prems by (intro filter_cong) auto
    then show ?thesis
      using Cons Suc by simp
  qed
qed


lemma pending_tasks_gather:
  "pending_tasks (fst (gather env (take n (pending_tasks ts)) (ts, w))) = drop n (pending_tasks ts)"
proof -
  let ?b = "take n (pending_tasks ts)"
  let ?ts' = "fst (gather env ?b (ts, w))"
  have d: "distinct ?b"
    by (simp add: pending_tasks_distinct)
  have bd: "\<forall>i\<in>set ?b. i < length ts"
    using pending_tasks_bound in_set_takeD by fast
  have nth: "\<And>j. j < length ts \<Longrightarrow>
      (status (?ts' ! j) = ''pending'') = (j \<notin> set ?b \<and> status (ts ! j) = ''pending'')"
    using gather_nth [OF d bd] process_task_not_pending by simp
  have "pending_tasks ?ts' = filter (\<lambda>i. status (?ts' ! i) = ''pending'') [0..<length ts]"
    by (simp add: pending_tasks_def gather_length)
  also have "\<dots> = filter (\<lambda>i. i \<notin> set ?b \<and> status (ts ! i) = ''pending'') [0..<length ts]"
    by (rule filter_cong) (simp_all add: nth)
  also have "\<dots> = filter (\<lambda>i. i \<notin> set ?b) (pending_tasks ts)"
    by (simp add: pending_tasks_def conj_commute)
  also have "\<dots> = drop n (pending_tasks ts)"
    by (rule filter_not_take_distinct [OF pending_tasks_distinct])
  finally show ?thesis .
qed

lemma run_batch_tasks:
  "tasks (fst (run_batch env (q, w, pr))) =
     fst (gather env (take 3 (pending_tasks (tasks q))) (tasks q, w))"
  by (simp add: run_batch_def Let_def split: prod.splits)

lemma run_batch_world:
  "fst (snd (run_batch env (q, w, pr))) =
     snd (gather env (take 3 (pending_tasks (tasks q))) (tasks q, w))"
  by (simp add: run_batch_def Let_def split: prod.splits)

lemma run_batch_running: "running (fst (run_batch env (q, w, pr))) = running q"
  by (simp add: run_batch_def Let_def split: prod.splits)

lemma run_batch_pending:
  "pending_tasks (tasks (fst (run_batch env (q, w, pr)))) = drop 3 (pending_tasks (tasks q))"
  by (simp add: run_batch_tasks pending_tasks_gather)

text \<open>
  The loop of \<^verbatim>\<open>run\<close> (lines 95 to 106) and \<^verbatim>\<open>run\<close> itself. No statement of
  the repository assigns \<^verbatim>\<open>self.running\<close> but the first one of \<^verbatim>\<open>run\<close>.
\<close>

function run_loop :: "Env \<Rightarrow> TaskQueue \<times> World \<times> Progress \<Rightarrow> TaskQueue \<times> World \<times> Progress" where
  "run_loop env (q, w, pr) =
     (if running q \<and> tasks q \<noteq> [] then
        (if pending_tasks (tasks q) = [] then (q, w, pr)
         else run_loop env (run_batch env (q, w, pr)))
      else (q, w, pr))"
  by pat_completeness auto
termination
proof (relation "measure (\<lambda>(env, q, w, pr). length (pending_tasks (tasks q)))")
  show "wf (measure (\<lambda>(env, q, w, pr). length (pending_tasks (tasks q))))"
    by simp
next
  fix env :: Env and q :: TaskQueue and w :: World and pr :: Progress
  assume "running q \<and> tasks q \<noteq> []" and ne: "pending_tasks (tasks q) \<noteq> []"
  obtain q' w' pr' where rb: "run_batch env (q, w, pr) = (q', w', pr')"
    by (cases "run_batch env (q, w, pr)") auto
  have "pending_tasks (tasks q') = drop 3 (pending_tasks (tasks q))"
    using run_batch_pending [of env q w pr] rb by simp
  then have "length (pending_tasks (tasks q')) < length (pending_tasks (tasks q))"
    using ne by (cases "pending_tasks (tasks q)") simp_all
  then show "((env, run_batch env (q, w, pr)), (env, q, w, pr))
      \<in> measure (\<lambda>(env, q, w, pr). length (pending_tasks (tasks q)))"
    by (simp add: rb)
qed

declare run_loop.simps [simp del]

definition run :: "Env \<Rightarrow> TaskQueue \<times> World \<Rightarrow> Progress \<times> TaskQueue \<times> World" where
  "run env qw =
     (case qw of (q, w) \<Rightarrow>
        (let q1 = q\<lparr>running := True\<rparr>;
             progress = ProgressTracker (length (tasks q1))
         in case run_loop env (q1, w, progress) of
              (q', w', progress') \<Rightarrow> (get_summary progress', q', w')))"

subsection \<open>The interleavings of a batch\<close>

text \<open>
  \<^verbatim>\<open>asyncio.gather\<close> makes one asyncio task of each coroutine of the batch, and the
  event loop runs them on one thread: a coroutine runs from one suspension to the next
  without interruption. Three kinds of events are seen from outside: \<^verbatim>\<open>run\<close> selects
  a batch; a coroutine of the batch starts and sets its task running (they start in the
  order of the batch); a coroutine that has started comes back from its await and runs to
  its end. The event loop chooses the order; a schedule is a list of events.

  A configuration holds the queue, the world, the batch selected last, its members that
  have not started and its members that have started and not ended. \<^verbatim>\<open>run\<close> is
  suspended in \<^verbatim>\<open>await asyncio.gather(..)\<close> until the last two are empty, and
  \<^verbatim>\<open>process_task\<close> raises nothing that would end the wait earlier.
\<close>

datatype event = Select | Start nat | Finish nat

record config =
  c_queue :: TaskQueue
  c_world :: World
  c_batch :: "nat list"
  c_todo :: "nat list"
  c_active :: "nat list"

definition init_config :: "TaskQueue \<Rightarrow> World \<Rightarrow> config" where
  "init_config q w =
     \<lparr>c_queue = q\<lparr>running := True\<rparr>, c_world = w, c_batch = [], c_todo = [], c_active = []\<rparr>"

definition set_task :: "nat \<Rightarrow> Task \<Rightarrow> TaskQueue \<Rightarrow> TaskQueue" where
  "set_task i t q = q\<lparr>tasks := (tasks q)[i := t]\<rparr>"

fun step :: "Env \<Rightarrow> event \<Rightarrow> config \<Rightarrow> config option" where
  "step env Select c =
     (if c_todo c = [] \<and> c_active c = [] \<and> running (c_queue c) \<and> tasks (c_queue c) \<noteq> [] \<and>
         pending_tasks (tasks (c_queue c)) \<noteq> []
      then Some (c\<lparr>c_batch := take 3 (pending_tasks (tasks (c_queue c))),
                   c_todo := take 3 (pending_tasks (tasks (c_queue c)))\<rparr>)
      else None)"
| "step env (Start i) c =
     (case c_todo c of
        [] \<Rightarrow> None
      | j # rest \<Rightarrow>
          if i = j
          then Some (c\<lparr>c_queue := set_task i (start_task (tasks (c_queue c) ! i)) (c_queue c),
                       c_todo := rest, c_active := c_active c @ [i]\<rparr>)
          else None)"
| "step env (Finish i) c =
     (if i \<in> set (c_active c)
      then Some (c\<lparr>c_queue := set_task i (fst (finish_task env (tasks (c_queue c) ! i, c_world c)))
                                 (c_queue c),
                   c_world := snd (finish_task env (tasks (c_queue c) ! i, c_world c)),
                   c_active := removeAll i (c_active c)\<rparr>)
      else None)"

fun exec :: "Env \<Rightarrow> event list \<Rightarrow> config \<Rightarrow> config option" where
  "exec env [] c = Some c"
| "exec env (e # es) c = (case step env e c of None \<Rightarrow> None | Some c' \<Rightarrow> exec env es c')"


definition terminal :: "Task \<Rightarrow> bool" where
  "terminal t = (status t = ''completed'' \<or> status t = ''failed'')"

definition batch_settling :: "config \<Rightarrow> bool" where
  "batch_settling c =
     (\<forall>i\<in>set (c_batch c).
         i < length (tasks (c_queue c)) \<and>
         (i \<in> set (c_todo c) \<or> i \<in> set (c_active c) \<or> terminal (tasks (c_queue c) ! i)))"

text \<open>
  The write of a result file that the coroutine of a record attempts (one when its job
  returns, none when it raises), and those of the records \<open>b\<close> in the order of \<open>b\<close>.
\<close>

definition artifact_attempt :: "Env \<Rightarrow> Task \<Rightarrow> effect list" where
  "artifact_attempt env t =
     (case run_job env (start_task t) of
        Inl e \<Rightarrow> []
      | Inr r \<Rightarrow> [ArtifactWrite (result_file t)])"

definition artifact_attempts :: "Env \<Rightarrow> Task list \<Rightarrow> nat list \<Rightarrow> effect list" where
  "artifact_attempts env ts b = concat (map (\<lambda>i. artifact_attempt env (ts ! i)) b)"

text \<open>
  Where the records stand while the batch \<open>c_batch c\<close>, selected on the tasks \<open>ts0\<close>
  in the world \<open>w0\<close>, is being processed.
\<close>

definition batch_progress :: "Env \<Rightarrow> Task list \<Rightarrow> World \<Rightarrow> config \<Rightarrow> bool" where
  "batch_progress env ts0 w0 c =
     (distinct (c_todo c @ c_active c) \<and>
      set (c_todo c) \<union> set (c_active c) \<subseteq> set (c_batch c) \<and>
      length (tasks (c_queue c)) = length ts0 \<and>
      fs_fault (c_world c) = fs_fault w0 \<and>
      (\<forall>i<length ts0.
          tasks (c_queue c) ! i =
            (if i \<in> set (c_todo c) then ts0 ! i
             else if i \<in> set (c_active c) then start_task (ts0 ! i)
             else if i \<in> set (c_batch c) then fst (process_task env (ts0 ! i, w0))
             else ts0 ! i)))"

subsection \<open>Concrete inputs\<close>

text \<open>Clock readings, an empty healthy world and a queue with a store attached.\<close>

definition clock :: "nat \<Rightarrow> nat \<Rightarrow> nat \<Rightarrow> datetime" where
  "clock h m s = \<lparr>year = 2024, month = 1, day = 2, hour = h, minute = m, second = s, microsecond = 0\<rparr>"

definition world0 :: World where
  "world0 = \<lparr>db = [], db_fault = None, files = Map.empty, fs_fault = None, effects = []\<rparr>"

definition queue0 :: TaskQueue where
  "queue0 = TaskQueue_init\<lparr>storage := Some Storage_init\<rparr>"

text \<open>
  One call of \<^verbatim>\<open>add_task\<close> for a job of the given priority, with the class body
  evaluated at 01:00:00 and the clock at 03:04:05, keeping the queue and the world.
\<close>

definition enqueue :: "int \<Rightarrow> TaskQueue \<times> World \<Rightarrow> TaskQueue \<times> World" where
  "enqueue prio qw =
     (case qw of (q, w) \<Rightarrow>
        (case add_task (clock 1 0 0) (clock 3 4 5) w q ''code_improvement'' (Path ''foo.py'') prio of
           (r, q', w') \<Rightarrow> (q', w')))"

text \<open>A pending job as \<^verbatim>\<open>add_task\<close> builds it, and a queue of four of them.\<close>

definition job :: "string \<Rightarrow> int \<Rightarrow> Task" where
  "job i prio = mk_Task (clock 1 0 0) i ''code_improvement'' (Path ''foo.py'') prio"

definition four_jobs :: TaskQueue where
  "four_jobs = queue0\<lparr>tasks := [job ''a'' 0, job ''b'' 0, job ''c'' 0, job ''d'' 0]\<rparr>"

text \<open>
  Two jobs: the first asks for \<^verbatim>\<open>suggest_tests\<close>, which the client of the
  repository does not have; the second is a code improvement.
\<close>

definition two_jobs :: TaskQueue where
  "two_jobs = queue0\<lparr>tasks := [job ''a'' 0\<lparr>type' := ''test_generation''\<rparr>, job ''b'' 0]\<rparr>"

text \<open>The healthy world in which the two jobs have been saved.\<close>

definition saved_world :: World where
  "saved_world = world0\<lparr>db := map row_of (tasks two_jobs)\<rparr>"

section \<open>Properties\<close>

subsection \<open>Evaluation lemmas\<close>

lemma str_nat_digit: "n < 10 \<Longrightarrow> str_nat n = [digit_char n]"
  by (simp add: str_nat.simps)

lemma str_nat_0: "str_nat 0 = ''0''"
  by (simp add: str_nat_digit digit_char_def)

lemma strftime_clock_030405: "strftime (clock 3 4 5) = ''20240102_030405''"
  by code_simp

subsection \<open>\<^verbatim>\<open>Storage.save_task\<close>\<close>

lemma save_task_ok:
  "db_fault w = None \<Longrightarrow> fits_int64 (priority task) \<Longrightarrow>
   save_task w task =
     (Inr (), w\<lparr>effects := effects w @ [StoreWrite (id' task)],
                 db := insert_or_replace (row_of task) (db w)\<rparr>)"
  by (simp add: save_task_def Let_def)

lemma save_task_effects:
  "effects (snd (save_task w task)) = effects w @ [StoreWrite (id' task)]"
  by (simp add: save_task_def Let_def split: option.splits)

lemma save_task_Inl_db: "save_task w task = (Inl e, w') \<Longrightarrow> db w' = db w"
  by (auto simp: save_task_def Let_def split: option.splits if_splits)

lemma save_task_Inr_db:
  "save_task w task = (Inr u, w') \<Longrightarrow> db w' = insert_or_replace (row_of task) (db w)"
  by (auto simp: save_task_def Let_def split: option.splits if_splits)

lemma save_task_Inr_iff:
  "(\<exists>u. fst (save_task w task) = Inr u) = (db_fault w = None \<and> fits_int64 (priority task))"
  by (auto simp: save_task_def Let_def split: option.splits if_splits)

lemma find_insert_or_replace:
  "List.find (\<lambda>x. col_id x = col_id r) (insert_or_replace r rs) = Some r"
  unfolding insert_or_replace_def by (induction rs) auto

text \<open>
  C10. A task whose payload is falsy (\<^verbatim>\<open>None\<close> and the empty dict are) is saved with
  NULL in the result column: after a save that goes through, the row of its id is the row of
  the task and its result column is NULL. A task that ended with the empty dict as payload
  and the same task with no payload leave the same store.
\<close>

theorem save_task_falsy_result_is_null:
  assumes "\<not> truthy (result task)" and "db_fault w = None" and "fits_int64 (priority task)"
  shows "\<not> truthy JNull \<and> \<not> truthy (JDict []) \<and>
         fst (save_task w task) = Inr () \<and>
         List.find (\<lambda>x. col_id x = id' task) (db (snd (save_task w task))) = Some (row_of task) \<and>
         col_result (row_of task) = None \<and>
         save_task w (task\<lparr>result := JDict []\<rparr>) = save_task w (task\<lparr>result := JNull\<rparr>)"
proof -
  have id_row: "col_id (row_of task) = id' task"
    by (simp add: row_of_def)
  have "List.find (\<lambda>x. col_id x = id' task) (insert_or_replace (row_of task) (db w)) = Some (row_of task)"
    using find_insert_or_replace [of "row_of task" "db w"] by (simp add: id_row)
  moreover have "col_result (row_of task) = None"
    using assms(1) by (simp add: row_of_def)
  moreover have "row_of (task\<lparr>result := JDict []\<rparr>) = row_of (task\<lparr>result := JNull\<rparr>)"
    by (simp add: row_of_def)
  then have "save_task w (task\<lparr>result := JDict []\<rparr>) = save_task w (task\<lparr>result := JNull\<rparr>)"
    by (simp add: save_task_def Let_def split: option.splits)
  ultimately show ?thesis
    using assms(2,3) by (simp add: save_task_ok)
qed

theorem save_task_falsy_result_is_null_witness:
  "fst (save_task world0
          (mk_Task (clock 1 0 0) ''code_improvement_0_20240102_030405'' ''code_improvement''
             (Path ''foo.py'') 5 \<lparr>status := ''completed'', result := JDict []\<rparr>)) = Inr () \<and>
   map col_result (db (snd (save_task world0
          (mk_Task (clock 1 0 0) ''code_improvement_0_20240102_030405'' ''code_improvement''
             (Path ''foo.py'') 5 \<lparr>status := ''completed'', result := JDict []\<rparr>)))) = [None]"
  using save_task_falsy_result_is_null
    [of "mk_Task (clock 1 0 0) ''code_improvement_0_20240102_030405'' ''code_improvement''
             (Path ''foo.py'') 5 \<lparr>status := ''completed'', result := JDict []\<rparr>" world0]
  by (simp add: mk_Task_def world0_def fits_int64_def save_task_def insert_or_replace_def row_of_def)

subsection \<open>\<^verbatim>\<open>TaskQueue.add_task\<close>\<close>

lemma add_task_no_storage:
  "storage q = None \<Longrightarrow>
   add_task class_now now w q task_type p prio = (Inl (AttributeError ''storage''), q, w)"
  by (simp add: add_task_def Let_def)

lemma add_task_saved:
  "storage q = Some st \<Longrightarrow>
   save_task w (mk_Task class_now (mint_id task_type (length (tasks q)) now) task_type p prio)
     = (Inr u, w') \<Longrightarrow>
   add_task class_now now w q task_type p prio =
     (Inr (mint_id task_type (length (tasks q)) now),
      q\<lparr>tasks := tasks q @ [mk_Task class_now (mint_id task_type (length (tasks q)) now) task_type p prio]\<rparr>,
      w')"
  by (simp add: add_task_def Let_def)

lemma add_task_not_saved:
  "storage q = Some st \<Longrightarrow>
   save_task w (mk_Task class_now (mint_id task_type (length (tasks q)) now) task_type p prio)
     = (Inl e, w') \<Longrightarrow>
   add_task class_now now w q task_type p prio = (Inl e, q, w')"
  by (simp add: add_task_def Let_def)

text \<open>
  C1, as stated, fails where the store write fails: with the database locked,
  \<^verbatim>\<open>add_task\<close> raises the error of the store and the record is not in
  \<^verbatim>\<open>self.tasks\<close>, since \<^verbatim>\<open>append\<close> comes after \<^verbatim>\<open>save_task\<close>.
\<close>

theorem add_task_persist_failure_counterexample:
  "(case add_task (clock 1 0 0) (clock 3 4 5) (world0\<lparr>db_fault := Some ''database is locked''\<rparr>)
           queue0 ''code_improvement'' (Path ''foo.py'') 5 of
      (r, q', w') \<Rightarrow> r = Inl (OperationalError ''database is locked'') \<and> tasks q' = [])"
  by (simp add: add_task_def Let_def save_task_def queue0_def TaskQueue_init_def world0_def)

text \<open>
  C1, amended. On a queue that has a store attached, \<^verbatim>\<open>add_task\<close> builds a record
  with the minted id and status pending and attempts one store write for it. When the write
  goes through, the record is the row of its id in the store and the last element of
  \<^verbatim>\<open>self.tasks\<close>, and the id is returned. When the write fails, the error of the store
  is what the caller receives, and neither \<^verbatim>\<open>self.tasks\<close> nor the table has changed:
  the record is not queued.
\<close>

theorem add_task_with_storage:
  assumes "storage q = Some st"
  shows "(case add_task class_now now w q task_type p prio of
            (r, q', w') \<Rightarrow>
              effects w' = effects w @ [StoreWrite (mint_id task_type (length (tasks q)) now)] \<and>
              (case r of
                 Inr i \<Rightarrow>
                   i = mint_id task_type (length (tasks q)) now \<and>
                   tasks q' = tasks q @ [mk_Task class_now i task_type p prio] \<and>
                   id' (last (tasks q')) = i \<and>
                   status (last (tasks q')) = ''pending'' \<and>
                   List.find (\<lambda>x. col_id x = i) (db w') = Some (row_of (last (tasks q'))) \<and>
                   db_fault w = None
               | Inl e \<Rightarrow>
                   tasks q' = tasks q \<and> db w' = db w \<and>
                   (db_fault w \<noteq> None \<or> \<not> fits_int64 prio)))"
proof -
  let ?i = "mint_id task_type (length (tasks q)) now"
  let ?t = "mk_Task class_now ?i task_type p prio"
  obtain r w' where sv: "save_task w ?t = (r, w')"
    by (cases "save_task w ?t") auto
  have eff: "effects w' = effects w @ [StoreWrite ?i]"
    using save_task_effects [of w ?t] sv by (simp add: mk_Task_def)
  show ?thesis
  proof (cases r)
    case (Inl e)
    have "db w' = db w"
      using sv Inl save_task_Inl_db by blast
    moreover have "db_fault w \<noteq> None \<or> \<not> fits_int64 prio"
      using save_task_Inr_iff [of w ?t] sv Inl by (auto simp: mk_Task_def)
    ultimately show ?thesis
      using add_task_not_saved [OF assms, where w = w and class_now = class_now and task_type = task_type
          and now = now and p = p and prio = prio and e = e and w' = w'] sv Inl eff
      by simp
  next
    case (Inr u)
    have dbw: "db w' = insert_or_replace (row_of ?t) (db w)"
      using sv Inr save_task_Inr_db by blast
    have "col_id (row_of ?t) = ?i"
      by (simp add: row_of_def mk_Task_def)
    then have "List.find (\<lambda>x. col_id x = ?i) (db w') = Some (row_of ?t)"
      using find_insert_or_replace [of "row_of ?t" "db w"] dbw by simp
    moreover have "db_fault w = None"
      using save_task_Inr_iff [of w ?t] sv Inr by auto
    moreover have "id' ?t = ?i" and "status ?t = ''pending''"
      by (simp_all add: mk_Task_def)
    ultimately show ?thesis
      using add_task_saved [OF assms, where w = w and class_now = class_now and task_type = task_type
          and now = now and p = p and prio = prio and u = u and w' = w'] sv Inr eff
      by simp
  qed
qed

theorem add_task_with_storage_witness:
  "storage queue0 = Some Storage_init \<and>
   (case add_task (clock 1 0 0) (clock 3 4 5) world0 queue0 ''code_improvement'' (Path ''foo.py'') 5 of
      (r, q', w') \<Rightarrow>
        r = Inr ''code_improvement_0_20240102_030405'' \<and>
        map id' (tasks q') = [''code_improvement_0_20240102_030405''] \<and>
        map status (tasks q') = [''pending''] \<and>
        map col_id (db w') = [''code_improvement_0_20240102_030405''] \<and>
        effects w' = [StoreWrite ''code_improvement_0_20240102_030405''])"
  using add_task_with_storage
    [where q = queue0 and st = Storage_init and class_now = "clock 1 0 0" and now = "clock 3 4 5"
       and w = world0 and task_type = "''code_improvement''" and p = "Path ''foo.py''" and prio = 5]
  by (simp add: add_task_def Let_def save_task_def queue0_def TaskQueue_init_def world0_def
      mint_id_def str_nat_0 strftime_clock_030405 mk_Task_def fits_int64_def
      insert_or_replace_def row_of_def)

subsection \<open>\<^verbatim>\<open>Storage.get_pending_tasks\<close>\<close>




subsection \<open>What \<^verbatim>\<open>process_task\<close> leaves alone\<close>

lemma finish_task_fields:
  "id' (fst (finish_task env (t, w))) = id' t"
  "type' (fst (finish_task env (t, w))) = type' t"
  "input_path (fst (finish_task env (t, w))) = input_path t"
  "created_at (fst (finish_task env (t, w))) = created_at t"
  "priority (fst (finish_task env (t, w))) = priority t"
  by (cases "fs_fault w";
      simp add: finish_task_def save_result_def fail_task_def Let_def split: sum.splits)+

lemma process_task_fields:
  "id' (fst (process_task env (t, w))) = id' t"
  "type' (fst (process_task env (t, w))) = type' t"
  "input_path (fst (process_task env (t, w))) = input_path t"
  "created_at (fst (process_task env (t, w))) = created_at t"
  "priority (fst (process_task env (t, w))) = priority t"
  by (simp_all add: process_task_def finish_task_fields start_task_def)

lemma map_update_same: "f x = f (xs ! i) \<Longrightarrow> map f (xs[i := x]) = map f xs"
  by (cases "i < length xs") (auto simp: list_eq_iff_nth_eq nth_list_update)

lemma gather_map_priority: "map priority (fst (gather env b (ts, w))) = map priority ts"
  by (induction b arbitrary: ts w)
     (simp_all add: gather_Nil gather_Cons map_update_same process_task_fields)

lemma gather_map_created_at: "map created_at (fst (gather env b (ts, w))) = map created_at ts"
  by (induction b arbitrary: ts w)
     (simp_all add: gather_Nil gather_Cons map_update_same process_task_fields)

lemma gather_map_id: "map id' (fst (gather env b (ts, w))) = map id' ts"
  by (induction b arbitrary: ts w)
     (simp_all add: gather_Nil gather_Cons map_update_same process_task_fields)

subsection \<open>The creation time\<close>

lemma add_task_created_at:
  "add_task class_now now w q task_type p prio = (Inr i, q', w') \<Longrightarrow>
   created_at (last (tasks q')) = class_now"
  by (auto simp: add_task_def Let_def mk_Task_def split: option.splits prod.splits sum.splits)

text \<open>
  C8 on the code. Two calls of \<^verbatim>\<open>add_task\<close>, one second apart by the clock (the ids
  show it), on a process whose class body was evaluated at 01:00:00: both records carry
  01:00:00 as \<^verbatim>\<open>created_at\<close>, the time of the class statement and not of their
  creation.
\<close>

theorem add_task_created_at_is_class_time:
  "(case add_task (clock 1 0 0) (clock 3 4 5) world0 queue0 ''code_improvement'' (Path ''a.py'') 0 of
      (r1, q1, w1) \<Rightarrow>
        (case add_task (clock 1 0 0) (clock 3 4 6) w1 q1 ''code_improvement'' (Path ''b.py'') 0 of
           (r2, q2, w2) \<Rightarrow>
             map id' (tasks q2) =
               [''code_improvement_0_20240102_030405'', ''code_improvement_1_20240102_030406''] \<and>
             map created_at (tasks q2) = [clock 1 0 0, clock 1 0 0]))"
proof -
  have s6: "strftime (clock 3 4 6) = ''20240102_030406''"
    by code_simp
  have n1: "str_nat (Suc 0) = ''1''"
    by (simp add: str_nat_digit digit_char_def)
  show ?thesis
    by (simp add: add_task_def Let_def save_task_def queue0_def TaskQueue_init_def world0_def
        mint_id_def str_nat_0 n1 strftime_clock_030405 s6 mk_Task_def fits_int64_def)
qed

subsection \<open>The watcher\<close>

lemma on_modified_with_storage:
  assumes "endswith src_path ''.py''" and "storage q = Some st"
    and "db_fault w = None"
  shows "(case on_modified class_now now w q src_path of
            (r, q', w') \<Rightarrow>
              r = Inr () \<and>
              tasks q' = tasks q @ [mk_Task class_now (mint_id ''code_improvement'' (length (tasks q)) now)
                                      ''code_improvement'' (Path src_path) 5] \<and>
              db w' = insert_or_replace
                        (row_of (mk_Task class_now (mint_id ''code_improvement'' (length (tasks q)) now)
                                   ''code_improvement'' (Path src_path) 5)) (db w))"
  using assms
  by (simp add: on_modified_def add_task_def Let_def save_task_def mk_Task_def fits_int64_def)

text \<open>
  C9 on the code. \<^verbatim>\<open>watch_directory\<close> hands the handler the queue it is called on,
  and the callers build that queue with \<^verbatim>\<open>TaskQueue()\<close>. On such a queue the event
  for \<^verbatim>\<open>foo.py\<close> ends in the AttributeError of \<^verbatim>\<open>self.storage\<close>: nothing is
  queued, nothing is written, and \<^verbatim>\<open>get_pending_tasks\<close> stays empty.
\<close>

theorem on_modified_fresh_queue:
  "on_modified (clock 1 0 0) (clock 3 4 5) world0 TaskQueue_init ''foo.py'' =
     (Inl (AttributeError ''storage''), TaskQueue_init, world0) \<and>
   get_pending_tasks world0 = Inr []"
  by (simp add: on_modified_def endswith_def add_task_def Let_def TaskQueue_init_def
      get_pending_tasks_def world0_def)

subsection \<open>The batches of \<^verbatim>\<open>run\<close>\<close>

lemma enqueue_five:
  "map priority (tasks (fst (fold enqueue [1, 5, 0, 5, 3] (queue0, world0)))) = [1, 5, 0, 5, 3] \<and>
   map status (tasks (fst (fold enqueue [1, 5, 0, 5, 3] (queue0, world0)))) =
     [''pending'', ''pending'', ''pending'', ''pending'', ''pending'']"
  by (simp add: enqueue_def add_task_def Let_def save_task_def queue0_def TaskQueue_init_def
      world0_def mk_Task_def fits_int64_def)

lemma pending_tasks_all:
  "map status ts = [''pending'', ''pending'', ''pending'', ''pending'', ''pending''] \<Longrightarrow>
   pending_tasks ts = [0, 1, 2, 3, 4]"
proof -
  assume a: "map status ts = [''pending'', ''pending'', ''pending'', ''pending'', ''pending'']"
  then have len: "length ts = 5"
    using length_map [of status ts] by simp
  have "\<And>i. i < 5 \<Longrightarrow> status (ts ! i) = ''pending''"
  proof -
    fix i :: nat
    assume "i < 5"
    then have "map status ts ! i = ''pending''"
      unfolding a by (auto simp: less_Suc_eq numeral_eq_Suc)
    then show "status (ts ! i) = ''pending''"
      using len \<open>i < 5\<close> by simp
  qed
  then have "filter (\<lambda>i. status (ts ! i) = ''pending'') [0..<5] = [0..<5]"
    by (intro filter_True) simp
  moreover have "[0..<5] = [0, 1, 2, 3, 4::nat]"
    by (simp add: upt_rec)
  ultimately show ?thesis
    by (simp add: pending_tasks_def len)
qed

text \<open>
  C3 on the code. After the five calls with priorities 1, 5, 0, 5, 3, the first batch of
  \<^verbatim>\<open>run\<close> is the first three records of \<^verbatim>\<open>self.tasks\<close>, of priorities 1, 5
  and 0, and the second batch is the two others, of priorities 5 and 3, whatever the jobs
  return: the pending records are taken in the order of the list, and no statement of
  \<^verbatim>\<open>run\<close> reads the priority.
\<close>

theorem run_batches_ignore_priority:
  "(case fold enqueue [1, 5, 0, 5, 3] (queue0, world0) of
      (q, w) \<Rightarrow>
        take 3 (pending_tasks (tasks q)) = [0, 1, 2] \<and>
        map (\<lambda>i. priority (tasks q ! i)) (take 3 (pending_tasks (tasks q))) = [1, 5, 0] \<and>
        (case run_batch env (q, w, pr) of
           (q', w', pr') \<Rightarrow>
             take 3 (pending_tasks (tasks q')) = [3, 4] \<and>
             map (\<lambda>i. priority (tasks q' ! i)) (take 3 (pending_tasks (tasks q'))) = [5, 3]))"
proof -
  obtain q w where qw: "fold enqueue [1, 5, 0, 5, 3] (queue0, world0) = (q, w)"
    by (cases "fold enqueue [1, 5, 0, 5, 3] (queue0, world0)") auto
  obtain q' w' pr' where rb: "run_batch env (q, w, pr) = (q', w', pr')"
    by (cases "run_batch env (q, w, pr)") auto
  have prio: "map priority (tasks q) = [1, 5, 0, 5, 3]"
    and st: "map status (tasks q) = [''pending'', ''pending'', ''pending'', ''pending'', ''pending'']"
    using enqueue_five qw by simp_all
  have pend: "pending_tasks (tasks q) = [0, 1, 2, 3, 4]"
    by (rule pending_tasks_all [OF st])
  have pend': "pending_tasks (tasks q') = [3, 4]"
    using run_batch_pending [of env q w pr] rb pend by simp
  have "map priority (tasks q') = map priority (tasks q)"
    using run_batch_tasks [of env q w pr] rb gather_map_priority by simp
  then have prio': "map priority (tasks q') = [1, 5, 0, 5, 3]"
    using prio by simp
  have nth: "\<And>ts i. i < length ts \<Longrightarrow> priority (ts ! i) = map priority ts ! i"
    by simp
  have len: "length (tasks q) = 5" "length (tasks q') = 5"
    using prio prio' length_map [of priority "tasks q"] length_map [of priority "tasks q'"]
    by simp_all
  have "map (\<lambda>i. priority (tasks q ! i)) [0, 1, 2] = [1, 5, 0]"
    using len by (simp add: nth prio)
  moreover have "map (\<lambda>i. priority (tasks q' ! i)) [3, 4] = [5, 3]"
    using len by (simp add: nth prio')
  ultimately show ?thesis
    unfolding qw by (simp add: rb pend pend')
qed

subsection \<open>Invariants of the interleavings\<close>

lemma start_task_status: "status (start_task t) = ''running''"
  by (simp add: start_task_def)

lemma finish_task_terminal: "terminal (fst (finish_task env (t, w)))"
  using finish_task_status [of env t w] by (simp add: terminal_def)




lemma exec_invariant:
  assumes "\<And>c e c'. P c \<Longrightarrow> step env e c = Some c' \<Longrightarrow> P c'"
  shows "P c \<Longrightarrow> exec env es c = Some c' \<Longrightarrow> P c'"
proof (induction es arbitrary: c)
  case Nil
  then show ?case by simp
next
  case (Cons e es)
  then obtain c1 where s: "step env e c = Some c1" and r: "exec env es c1 = Some c'"
    by (auto split: option.splits)
  have "P c1"
    using assms Cons.prems(1) s by blast
  then show ?case
    using Cons.IH r by blast
qed


lemma batch_settling_init: "batch_settling (init_config q w)"
  by (simp add: batch_settling_def init_config_def)

lemma batch_settling_step:
  assumes "batch_settling c" and "step env e c = Some c'"
  shows "batch_settling c'"
proof (cases e)
  case Select
  then have c': "c' = c\<lparr>c_batch := take 3 (pending_tasks (tasks (c_queue c))),
                         c_todo := take 3 (pending_tasks (tasks (c_queue c)))\<rparr>"
    using assms(2) by (auto split: if_splits)
  show ?thesis
    using pending_tasks_bound in_set_takeD by (fastforce simp: batch_settling_def c')
next
  case (Start i)
  then obtain rest where todo: "c_todo c = i # rest"
    and c': "c' = c\<lparr>c_queue := set_task i (start_task (tasks (c_queue c) ! i)) (c_queue c),
                     c_todo := rest, c_active := c_active c @ [i]\<rparr>"
    using assms(2) by (auto split: list.splits if_splits)
  show ?thesis
    unfolding batch_settling_def
  proof
    fix k
    assume "k \<in> set (c_batch c')"
    then have k: "k \<in> set (c_batch c)"
      by (simp add: c')
    then have kl: "k < length (tasks (c_queue c))"
      and kc: "k \<in> set (c_todo c) \<or> k \<in> set (c_active c) \<or> terminal (tasks (c_queue c) ! k)"
      using assms(1) by (auto simp: batch_settling_def)
    show "k < length (tasks (c_queue c')) \<and>
          (k \<in> set (c_todo c') \<or> k \<in> set (c_active c') \<or> terminal (tasks (c_queue c') ! k))"
    proof (cases "k = i")
      case True
      then show ?thesis
        using kl by (simp add: c' set_task_def)
    next
      case False
      then show ?thesis
        using kl kc todo by (auto simp: c' set_task_def)
    qed
  qed
next
  case (Finish i)
  then have act: "i \<in> set (c_active c)"
    and c': "c' = c\<lparr>c_queue := set_task i (fst (finish_task env (tasks (c_queue c) ! i, c_world c)))
                                 (c_queue c),
                   c_world := snd (finish_task env (tasks (c_queue c) ! i, c_world c)),
                   c_active := removeAll i (c_active c)\<rparr>"
    using assms(2) by (auto split: if_splits)
  show ?thesis
    unfolding batch_settling_def
  proof
    fix k
    assume "k \<in> set (c_batch c')"
    then have k: "k \<in> set (c_batch c)"
      by (simp add: c')
    then have kl: "k < length (tasks (c_queue c))"
      and kc: "k \<in> set (c_todo c) \<or> k \<in> set (c_active c) \<or> terminal (tasks (c_queue c) ! k)"
      using assms(1) by (auto simp: batch_settling_def)
    show "k < length (tasks (c_queue c')) \<and>
          (k \<in> set (c_todo c') \<or> k \<in> set (c_active c') \<or> terminal (tasks (c_queue c') ! k))"
    proof (cases "k = i")
      case True
      then show ?thesis
        using kl finish_task_terminal by (simp add: c' set_task_def)
    next
      case False
      then show ?thesis
        using kl kc by (auto simp: c' set_task_def)
    qed
  qed
qed

lemma pending_four:
  "pending_tasks [job ''a'' 0, job ''b'' 0, job ''c'' 0, job ''d'' 0] = [0, 1, 2, 3]"
  by (simp add: pending_tasks_def job_def mk_Task_def upt_rec)


lemma finish_started_job:
  "fs_fault w = None \<Longrightarrow>
   finish_task source_env (start_task (job i prio), w) =
     (job i prio\<lparr>status := ''completed'', result := JDict [(''improvements'', JList [])]\<rparr>,
      snd (save_result w (job i prio\<lparr>status := ''completed'', result := JDict [(''improvements'', JList [])]\<rparr>)))"
  by (simp add: finish_task_def run_job_def source_env_def start_task_def job_def mk_Task_def
      save_result_def Let_def)

lemma save_result_fs_fault: "fs_fault (snd (save_result w t)) = fs_fault w"
  by (cases "fs_fault w") (simp_all add: save_result_def Let_def)

lemma first_batch_settled:
  "\<exists>w. exec source_env [Select, Start 0, Start 1, Start 2, Finish 1, Finish 0, Finish 2]
          (init_config four_jobs world0) =
     Some \<lparr>c_queue = \<lparr>tasks = [job ''a'' 0\<lparr>status := ''completed'', result := JDict [(''improvements'', JList [])]\<rparr>,
                                 job ''b'' 0\<lparr>status := ''completed'', result := JDict [(''improvements'', JList [])]\<rparr>,
                                 job ''c'' 0\<lparr>status := ''completed'', result := JDict [(''improvements'', JList [])]\<rparr>,
                                 job ''d'' 0],
                        running = True, storage = Some Storage_init\<rparr>,
           c_world = w, c_batch = [0, 1, 2], c_todo = [], c_active = []\<rparr>"
proof -
  have f0: "fs_fault world0 = None"
    by (simp add: world0_def)
  show ?thesis
    by (simp add: pending_four init_config_def set_task_def four_jobs_def queue0_def
        TaskQueue_init_def finish_started_job save_result_fs_fault f0)
qed

lemma add_task_no_running:
  "''running'' \<notin> set (map status (tasks q)) \<Longrightarrow>
   ''running'' \<notin> set (map status (tasks (fst (snd (add_task class_now now w q task_type p prio)))))"
  by (auto simp: add_task_def Let_def mk_Task_def split: option.splits prod.splits sum.splits)



text \<open>
  C6. In every configuration that a schedule reaches and in which \<^verbatim>\<open>run\<close> can
  select a batch, every record of the batch selected before is completed or failed: while
  one of them is pending or running, no selection takes place.
\<close>

theorem batch_barrier:
  assumes "exec env es (init_config q w) = Some c"
    and "step env Select c \<noteq> None"
  shows "\<forall>i\<in>set (c_batch c).
           status (tasks (c_queue c) ! i) = ''completed'' \<or> status (tasks (c_queue c) ! i) = ''failed''"
proof -
  have inv: "batch_settling c"
  proof (rule exec_invariant [where P = batch_settling and env = env])
    show "\<And>c e c'. batch_settling c \<Longrightarrow> step env e c = Some c' \<Longrightarrow> batch_settling c'"
      by (rule batch_settling_step)
    show "batch_settling (init_config q w)"
      by (rule batch_settling_init)
    show "exec env es (init_config q w) = Some c"
      by (rule assms(1))
  qed
  have "c_todo c = []" and "c_active c = []"
    using assms(2) by (auto split: if_splits)
  then show ?thesis
    using inv by (auto simp: batch_settling_def terminal_def)
qed

theorem batch_barrier_witness:
  "exec source_env [Select, Start 0, Start 1, Start 2, Finish 1, Finish 0, Finish 2]
     (init_config four_jobs world0) \<noteq> None \<and>
   step source_env Select
     (the (exec source_env [Select, Start 0, Start 1, Start 2, Finish 1, Finish 0, Finish 2]
             (init_config four_jobs world0))) \<noteq> None \<and>
   c_batch (the (exec source_env [Select, Start 0, Start 1, Start 2, Finish 1, Finish 0, Finish 2]
             (init_config four_jobs world0))) = [0, 1, 2] \<and>
   map status (tasks (c_queue
     (the (exec source_env [Select, Start 0, Start 1, Start 2, Finish 1, Finish 0, Finish 2]
             (init_config four_jobs world0))))) =
     [''completed'', ''completed'', ''completed'', ''pending'']"
proof -
  obtain w where ex:
    "exec source_env [Select, Start 0, Start 1, Start 2, Finish 1, Finish 0, Finish 2]
       (init_config four_jobs world0) =
     Some \<lparr>c_queue = \<lparr>tasks = [job ''a'' 0\<lparr>status := ''completed'', result := JDict [(''improvements'', JList [])]\<rparr>,
                                 job ''b'' 0\<lparr>status := ''completed'', result := JDict [(''improvements'', JList [])]\<rparr>,
                                 job ''c'' 0\<lparr>status := ''completed'', result := JDict [(''improvements'', JList [])]\<rparr>,
                                 job ''d'' 0],
                        running = True, storage = Some Storage_init\<rparr>,
           c_world = w, c_batch = [0, 1, 2], c_todo = [], c_active = []\<rparr>"
    using first_batch_settled by blast
  have pend: "pending_tasks
      [job ''a'' 0\<lparr>status := ''completed'', result := JDict [(''improvements'', JList [])]\<rparr>,
       job ''b'' 0\<lparr>status := ''completed'', result := JDict [(''improvements'', JList [])]\<rparr>,
       job ''c'' 0\<lparr>status := ''completed'', result := JDict [(''improvements'', JList [])]\<rparr>,
       job ''d'' 0] = [3]"
    by (simp add: pending_tasks_def job_def mk_Task_def upt_rec)
  have sel: "step source_env Select
      \<lparr>c_queue = \<lparr>tasks = [job ''a'' 0\<lparr>status := ''completed'', result := JDict [(''improvements'', JList [])]\<rparr>,
                                 job ''b'' 0\<lparr>status := ''completed'', result := JDict [(''improvements'', JList [])]\<rparr>,
                                 job ''c'' 0\<lparr>status := ''completed'', result := JDict [(''improvements'', JList [])]\<rparr>,
                                 job ''d'' 0],
                        running = True, storage = Some Storage_init\<rparr>,
           c_world = w, c_batch = [0, 1, 2], c_todo = [], c_active = []\<rparr> \<noteq> None"
    by (simp add: pend)
  show ?thesis
    using batch_barrier [OF ex sel] sel
    unfolding ex
    by (simp add: job_def mk_Task_def)
qed

subsection \<open>What \<^verbatim>\<open>run\<close> makes of each task\<close>

lemma run_loop_stop:
  "\<not> (running q \<and> tasks q \<noteq> [] \<and> pending_tasks (tasks q) \<noteq> []) \<Longrightarrow>
   run_loop env (q, w, pr) = (q, w, pr)"
  by (auto simp: run_loop.simps)

lemma run_loop_go:
  "running q \<Longrightarrow> pending_tasks (tasks q) \<noteq> [] \<Longrightarrow>
   run_loop env (q, w, pr) = run_loop env (run_batch env (q, w, pr))"
proof -
  assume r: "running q" and p: "pending_tasks (tasks q) \<noteq> []"
  have "tasks q \<noteq> []"
    using p by (auto simp: pending_tasks_def)
  then show ?thesis
    using r p by (simp add: run_loop.simps)
qed

lemma run_batch_length: "length (tasks (fst (run_batch env (q, w, pr)))) = length (tasks q)"
  by (simp add: run_batch_tasks gather_length)

lemma run_batch_fs_fault: "fs_fault (fst (snd (run_batch env (q, w, pr)))) = fs_fault w"
  by (simp add: run_batch_world gather_fs_fault)

lemma run_batch_nth:
  "j < length (tasks q) \<Longrightarrow>
   tasks (fst (run_batch env (q, w, pr))) ! j =
     (if j \<in> set (take 3 (pending_tasks (tasks q))) then fst (process_task env (tasks q ! j, w))
      else tasks q ! j)"
proof -
  assume j: "j < length (tasks q)"
  have d: "distinct (take 3 (pending_tasks (tasks q)))"
    by (simp add: pending_tasks_distinct)
  have bd: "\<forall>i\<in>set (take 3 (pending_tasks (tasks q))). i < length (tasks q)"
    using pending_tasks_bound in_set_takeD by fast
  show ?thesis
    using gather_nth [OF d bd j] by (simp add: run_batch_tasks)
qed

lemma run_loop_length:
  "length (tasks (fst (run_loop env s))) = length (tasks (fst s))"
proof (induction env s rule: run_loop.induct)
  case (1 env q w pr)
  show ?case
  proof (cases "running q \<and> tasks q \<noteq> [] \<and> pending_tasks (tasks q) \<noteq> []")
    case True
    then have "run_loop env (q, w, pr) = run_loop env (run_batch env (q, w, pr))"
      by (simp add: run_loop_go)
    moreover have "length (tasks (fst (run_loop env (run_batch env (q, w, pr))))) =
        length (tasks (fst (run_batch env (q, w, pr))))"
      using "1.IH" True by simp
    ultimately show ?thesis
      by (simp add: run_batch_length)
  next
    case False
    then show ?thesis
      by (simp add: run_loop_stop)
  qed
qed

lemma run_loop_nth:
  "running (fst s) \<Longrightarrow> j < length (tasks (fst s)) \<Longrightarrow>
   tasks (fst (run_loop env s)) ! j =
     (if status (tasks (fst s) ! j) = ''pending''
      then fst (process_task env (tasks (fst s) ! j, fst (snd s)))
      else tasks (fst s) ! j)"
proof (induction env s rule: run_loop.induct)
  case (1 env q w pr)
  have run: "running q" and j: "j < length (tasks q)"
    using "1.prems" by simp_all
  show ?case
  proof (cases "pending_tasks (tasks q) = []")
    case True
    then have "status (tasks q ! j) \<noteq> ''pending''"
      using j by (auto simp: pending_tasks_def filter_empty_conv)
    then show ?thesis
      using True by (simp add: run_loop_stop)
  next
    case False
    let ?s = "run_batch env (q, w, pr)"
    let ?b = "take 3 (pending_tasks (tasks q))"
    have ne: "tasks q \<noteq> []"
      using j by auto
    have go: "run_loop env (q, w, pr) = run_loop env ?s"
      using run False by (simp add: run_loop_go)
    have ih: "tasks (fst (run_loop env ?s)) ! j =
        (if status (tasks (fst ?s) ! j) = ''pending''
         then fst (process_task env (tasks (fst ?s) ! j, fst (snd ?s)))
         else tasks (fst ?s) ! j)"
      using "1.IH" run ne False j by (simp add: run_batch_running run_batch_length)
    have fault: "fs_fault (fst (snd ?s)) = fs_fault w"
      by (rule run_batch_fs_fault)
    show ?thesis
    proof (cases "j \<in> set ?b")
      case True
      then have "status (tasks q ! j) = ''pending''"
        using pending_tasks_status in_set_takeD by fast
      moreover have "tasks (fst ?s) ! j = fst (process_task env (tasks q ! j, w))"
        using run_batch_nth [OF j] True by simp
      ultimately show ?thesis
        using ih go process_task_not_pending by simp
    next
      case nb: False
      then have same: "tasks (fst ?s) ! j = tasks q ! j"
        using run_batch_nth [OF j] by simp
      have "fst (process_task env (tasks q ! j, fst (snd ?s))) = fst (process_task env (tasks q ! j, w))"
        by (rule process_task_fst_cong [OF fault])
      then show ?thesis
        using ih go same by simp
    qed
  qed
qed





lemma run_tasks:
  "tasks (fst (snd (run env (q, w)))) = tasks (fst (run_loop env (q\<lparr>running := True\<rparr>, w, ProgressTracker (length (tasks q)))))"
  by (simp add: run_def Let_def split: prod.splits)

lemma run_nth:
  "j < length (tasks q) \<Longrightarrow>
   tasks (fst (snd (run env (q, w)))) ! j =
     (if status (tasks q ! j) = ''pending'' then fst (process_task env (tasks q ! j, w))
      else tasks q ! j)"
  using run_loop_nth [of "(q\<lparr>running := True\<rparr>, w, ProgressTracker (length (tasks q)))" j env]
  by (simp add: run_tasks)

lemma run_length: "length (tasks (fst (snd (run env (q, w))))) = length (tasks q)"
  using run_loop_length [of env "(q\<lparr>running := True\<rparr>, w, ProgressTracker (length (tasks q)))"]
  by (simp add: run_tasks)




subsection \<open>The writes of \<^verbatim>\<open>run\<close>\<close>

lemma process_task_db: "db (snd (process_task env (t, w))) = db w"
  by (cases "fs_fault w")
     (simp_all add: process_task_def finish_task_def save_result_def Let_def split: sum.splits)

lemma process_task_effects:
  "effects (snd (process_task env (t, w))) = effects w @ artifact_attempt env t"
  by (cases "fs_fault w")
     (simp_all add: process_task_def finish_task_def save_result_def Let_def artifact_attempt_def
        result_file_def start_task_def split: sum.splits)

lemma process_task_completed:
  "status (fst (process_task env (t, w))) = ''completed'' \<Longrightarrow>
   artifact_attempt env t = [ArtifactWrite (result_file t)]"
  by (cases "fs_fault w")
     (simp_all add: process_task_def finish_task_def save_result_def Let_def artifact_attempt_def
        fail_task_def split: sum.splits)

lemma artifact_attempts_Cons:
  "artifact_attempts env ts (i # b) = artifact_attempt env (ts ! i) @ artifact_attempts env ts b"
  by (simp add: artifact_attempts_def)

lemma artifact_attempts_append:
  "artifact_attempts env ts (b @ b') = artifact_attempts env ts b @ artifact_attempts env ts b'"
  by (simp add: artifact_attempts_def)

lemma artifact_attempts_cong:
  "(\<And>i. i \<in> set b \<Longrightarrow> ts ! i = ts' ! i) \<Longrightarrow> artifact_attempts env ts b = artifact_attempts env ts' b"
  unfolding artifact_attempts_def
  by (rule arg_cong [where f = concat], rule map_cong) simp_all

lemma artifact_attempts_no_store: "StoreWrite x \<notin> set (artifact_attempts env ts b)"
  by (auto simp: artifact_attempts_def artifact_attempt_def split: sum.splits)

lemma gather_db: "db (snd (gather env b (ts, w))) = db w"
  by (induction b arbitrary: ts w) (simp_all add: gather_Nil gather_Cons process_task_db)

lemma gather_effects:
  "distinct b \<Longrightarrow> effects (snd (gather env b (ts, w))) = effects w @ artifact_attempts env ts b"
proof (induction b arbitrary: ts w)
  case Nil
  then show ?case by (simp add: gather_Nil artifact_attempts_def)
next
  case (Cons i b)
  let ?t = "fst (process_task env (ts ! i, w))"
  let ?w = "snd (process_task env (ts ! i, w))"
  have "artifact_attempts env (ts[i := ?t]) b = artifact_attempts env ts b"
  proof (rule artifact_attempts_cong)
    fix k
    assume "k \<in> set b"
    then have "k \<noteq> i"
      using Cons.prems by auto
    then show "ts[i := ?t] ! k = ts ! k"
      by simp
  qed
  then show ?case
    using Cons by (simp add: gather_Cons process_task_effects artifact_attempts_Cons)
qed

lemma run_batch_db: "db (fst (snd (run_batch env (q, w, pr)))) = db w"
  by (simp add: run_batch_world gather_db)

lemma run_batch_effects:
  "effects (fst (snd (run_batch env (q, w, pr)))) =
     effects w @ artifact_attempts env (tasks q) (take 3 (pending_tasks (tasks q)))"
  by (simp add: run_batch_world gather_effects pending_tasks_distinct)

lemma run_loop_db: "db (fst (snd (run_loop env s))) = db (fst (snd s))"
proof (induction env s rule: run_loop.induct)
  case (1 env q w pr)
  show ?case
  proof (cases "running q \<and> tasks q \<noteq> [] \<and> pending_tasks (tasks q) \<noteq> []")
    case True
    then show ?thesis
      using "1.IH" by (simp add: run_loop_go run_batch_db)
  next
    case False
    then show ?thesis
      by (simp add: run_loop_stop)
  qed
qed

lemma run_loop_effects:
  "running (fst s) \<Longrightarrow>
   effects (fst (snd (run_loop env s))) =
     effects (fst (snd s)) @ artifact_attempts env (tasks (fst s)) (pending_tasks (tasks (fst s)))"
proof (induction env s rule: run_loop.induct)
  case (1 env q w pr)
  have run: "running q"
    using "1.prems" by simp
  show ?case
  proof (cases "pending_tasks (tasks q) = []")
    case True
    then show ?thesis
      by (simp add: run_loop_stop artifact_attempts_def)
  next
    case False
    let ?s = "run_batch env (q, w, pr)"
    let ?p = "pending_tasks (tasks q)"
    have ne: "tasks q \<noteq> []"
      using False by (auto simp: pending_tasks_def)
    have ih: "effects (fst (snd (run_loop env ?s))) =
        effects (fst (snd ?s)) @ artifact_attempts env (tasks (fst ?s)) (pending_tasks (tasks (fst ?s)))"
      using "1.IH" run ne False by (simp add: run_batch_running)
    have same: "\<And>i. i \<in> set (drop 3 ?p) \<Longrightarrow> tasks (fst ?s) ! i = tasks q ! i"
    proof -
      fix i
      assume i: "i \<in> set (drop 3 ?p)"
      then have il: "i < length (tasks q)"
        using pending_tasks_bound in_set_dropD by fast
      have "distinct (take 3 ?p @ drop 3 ?p)"
        by (simp add: pending_tasks_distinct)
      then have "i \<notin> set (take 3 ?p)"
        using i by (auto simp only: distinct_append)
      then show "tasks (fst ?s) ! i = tasks q ! i"
        using run_batch_nth [OF il] by simp
    qed
    have "artifact_attempts env (tasks (fst ?s)) (drop 3 ?p) = artifact_attempts env (tasks q) (drop 3 ?p)"
      by (rule artifact_attempts_cong) (rule same)
    moreover have "artifact_attempts env (tasks q) (take 3 ?p) @ artifact_attempts env (tasks q) (drop 3 ?p)
        = artifact_attempts env (tasks q) ?p"
      using artifact_attempts_append [of env "tasks q" "take 3 ?p" "drop 3 ?p"] by simp
    ultimately show ?thesis
      using ih run False by (simp add: run_loop_go run_batch_effects run_batch_pending)
  qed
qed

lemma run_world:
  "snd (snd (run env (q, w))) = fst (snd (run_loop env (q\<lparr>running := True\<rparr>, w, ProgressTracker (length (tasks q)))))"
  by (simp add: run_def Let_def split: prod.splits)


lemma run_db: "db (snd (snd (run env (q, w)))) = db w"
  using run_loop_db [of env "(q\<lparr>running := True\<rparr>, w, ProgressTracker (length (tasks q)))"]
  by (simp add: run_world)

lemma run_effects:
  "effects (snd (snd (run env (q, w)))) =
     effects w @ artifact_attempts env (tasks q) (pending_tasks (tasks q))"
  using run_loop_effects [of "(q\<lparr>running := True\<rparr>, w, ProgressTracker (length (tasks q)))" env]
  by (simp add: run_world)

lemma run_completed_attempt:
  assumes "j < length (tasks q)" and "status (tasks q ! j) = ''pending''"
    and "status (tasks (fst (snd (run env (q, w)))) ! j) = ''completed''"
  shows "ArtifactWrite (result_file (tasks (fst (snd (run env (q, w)))) ! j))
           \<in> set (artifact_attempts env (tasks q) (pending_tasks (tasks q)))"
proof -
  have fin: "tasks (fst (snd (run env (q, w)))) ! j = fst (process_task env (tasks q ! j, w))"
    using run_nth [OF assms(1), of env w] assms(2) by simp
  then have "artifact_attempt env (tasks q ! j) = [ArtifactWrite (result_file (tasks q ! j))]"
    using assms(3) process_task_completed by simp
  moreover have "j \<in> set (pending_tasks (tasks q))"
    using assms(1,2) by (simp add: pending_tasks_def)
  moreover have "result_file (tasks (fst (snd (run env (q, w)))) ! j) = result_file (tasks q ! j)"
    by (simp add: fin result_file_def process_task_fields)
  ultimately show ?thesis
    by (force simp: artifact_attempts_def)
qed

lemma two_jobs_pending: "pending_tasks (tasks two_jobs) = [0, Suc 0]"
  by (simp add: pending_tasks_def two_jobs_def job_def mk_Task_def upt_rec)

lemma two_jobs_attempts:
  "artifact_attempts source_env (tasks two_jobs) [0, Suc 0] = [ArtifactWrite ''results/b_result.json'']"
  by (simp add: artifact_attempts_def artifact_attempt_def two_jobs_def job_def mk_Task_def
      run_job_def start_task_def source_env_def result_file_def)

lemma two_jobs_run:
  "length (tasks (fst (snd (run source_env (two_jobs, w))))) = 2 \<and>
   (fs_fault w = None \<longrightarrow>
    status (tasks (fst (snd (run source_env (two_jobs, w)))) ! 0) = ''failed'' \<and>
    status (tasks (fst (snd (run source_env (two_jobs, w)))) ! 1) = ''completed'') \<and>
   effects (snd (snd (run source_env (two_jobs, w)))) =
     effects w @ [ArtifactWrite ''results/b_result.json''] \<and>
   db (snd (snd (run source_env (two_jobs, w)))) = db w"
proof -
  have l: "length (tasks two_jobs) = 2" "0 < length (tasks two_jobs)" "Suc 0 < length (tasks two_jobs)"
    by (simp_all add: two_jobs_def)
  have a: "fst (process_task source_env (tasks two_jobs ! 0, w)) =
      fail_task (start_task (tasks two_jobs ! 0)) (AttributeError ''suggest_tests'')"
    by (simp add: process_task_def finish_task_def run_job_def two_jobs_def job_def mk_Task_def
        start_task_def source_env_def)
  have b: "fs_fault w = None \<Longrightarrow> status (fst (process_task source_env (tasks two_jobs ! Suc 0, w))) = ''completed''"
    by (simp add: process_task_def two_jobs_def finish_started_job)
  have st: "status (tasks two_jobs ! 0) = ''pending''" "status (tasks two_jobs ! Suc 0) = ''pending''"
    by (simp_all add: two_jobs_def job_def mk_Task_def)
  show ?thesis
    using run_nth [OF l(2), of source_env w] run_nth [OF l(3), of source_env w] b
    by (simp add: run_length l run_effects run_db two_jobs_pending two_jobs_attempts st a fail_task_def)
qed

text \<open>
  C4, as stated, fails. With both jobs saved as pending rows, \<^verbatim>\<open>run\<close> ends with the
  first record failed and the second completed; the only write it has attempted is the
  result file of the second. The rows of both are still pending in the table: no
  statement of \<^verbatim>\<open>process_task\<close> or \<^verbatim>\<open>run\<close> calls \<^verbatim>\<open>save_task\<close>.
\<close>

theorem terminal_transition_writes_counterexample:
  "(case run source_env (two_jobs, saved_world) of
      (summary, q', w') \<Rightarrow>
        status (tasks q' ! 0) = ''failed'' \<and> status (tasks q' ! 1) = ''completed'' \<and>
        effects w' = [ArtifactWrite ''results/b_result.json''] \<and>
        map col_id (db w') = [''a'', ''b''] \<and>
        map col_status (db w') = [''pending'', ''pending''])"
proof -
  obtain summary q' w' where r: "run source_env (two_jobs, saved_world) = (summary, q', w')"
    by (cases "run source_env (two_jobs, saved_world)") auto
  have "fs_fault saved_world = None" "effects saved_world = []"
    "map col_id (db saved_world) = [''a'', ''b'']"
    "map col_status (db saved_world) = [''pending'', ''pending'']"
    by (simp_all add: saved_world_def world0_def two_jobs_def job_def mk_Task_def row_of_def)
  then show ?thesis
    using two_jobs_run [of saved_world] by (simp add: r)
qed

text \<open>
  C4, amended. \<^verbatim>\<open>run\<close> leaves the table as it was and attempts no store write: what
  it adds to the attempted writes are writes of result files, one for each pending record
  whose job returns, in the order of the list. Every record that \<^verbatim>\<open>run\<close> takes from
  pending to completed has the write of the file named from its id among them.
\<close>

theorem run_attempts_artifact_writes_only:
  "(case run env (q, w) of
      (summary, q', w') \<Rightarrow>
        db w' = db w \<and>
        effects w' = effects w @ artifact_attempts env (tasks q) (pending_tasks (tasks q)) \<and>
        (\<forall>x. StoreWrite x \<notin> set (artifact_attempts env (tasks q) (pending_tasks (tasks q)))) \<and>
        (\<forall>j<length (tasks q).
            status (tasks q ! j) = ''pending'' \<and> status (tasks q' ! j) = ''completed'' \<longrightarrow>
            ArtifactWrite (result_file (tasks q' ! j))
              \<in> set (artifact_attempts env (tasks q) (pending_tasks (tasks q)))))"
proof -
  obtain summary q' w' where r: "run env (q, w) = (summary, q', w')"
    by (cases "run env (q, w)") auto
  show ?thesis
    using run_db [of env q w] run_effects [of env q w] run_completed_attempt [of _ q env w]
      artifact_attempts_no_store
    by (simp add: r)
qed

theorem run_attempts_artifact_writes_only_witness:
  "(case run source_env (two_jobs, saved_world) of
      (summary, q', w') \<Rightarrow>
        db w' = db saved_world \<and>
        effects w' = [ArtifactWrite ''results/b_result.json''] \<and>
        status (tasks q' ! 1) = ''completed'' \<and>
        result_file (tasks q' ! 1) = ''results/b_result.json'')"
proof -
  obtain summary q' w' where r: "run source_env (two_jobs, saved_world) = (summary, q', w')"
    by (cases "run source_env (two_jobs, saved_world)") auto
  have f: "fs_fault saved_world = None" "effects saved_world = []"
    by (simp_all add: saved_world_def world0_def)
  have "tasks q' ! Suc 0 = fst (process_task source_env (tasks two_jobs ! Suc 0, saved_world))"
    using run_nth [of "Suc 0" two_jobs source_env saved_world] r
    by (simp add: two_jobs_def job_def mk_Task_def)
  then have rf: "result_file (tasks q' ! Suc 0) = ''results/b_result.json''"
    by (simp add: result_file_def process_task_fields two_jobs_def job_def mk_Task_def)
  show ?thesis
    using run_attempts_artifact_writes_only [where env = source_env and q = two_jobs and w = saved_world]
      two_jobs_run [of saved_world] f rf
    by (simp add: r two_jobs_pending two_jobs_attempts)
qed

subsection \<open>The order of the events and the tasks\<close>

lemma batch_progress_select:
  assumes "step env Select c = Some c'"
  shows "batch_progress env (tasks (c_queue c)) (c_world c) c'"
proof -
  have c': "c' = c\<lparr>c_batch := take 3 (pending_tasks (tasks (c_queue c))),
                   c_todo := take 3 (pending_tasks (tasks (c_queue c)))\<rparr>"
    and e: "c_active c = []"
    using assms by (auto split: if_splits)
  show ?thesis
    by (simp add: batch_progress_def c' e pending_tasks_distinct)
qed

lemma batch_progress_start:
  assumes "batch_progress env ts0 w0 c" and "step env (Start i) c = Some c'"
  shows "batch_progress env ts0 w0 c'"
proof -
  obtain rest where todo: "c_todo c = i # rest"
    and c': "c' = c\<lparr>c_queue := set_task i (start_task (tasks (c_queue c) ! i)) (c_queue c),
                     c_todo := rest, c_active := c_active c @ [i]\<rparr>"
    using assms(2) by (auto split: list.splits if_splits)
  have d: "distinct (i # rest @ c_active c)" and sub: "set (i # rest) \<union> set (c_active c) \<subseteq> set (c_batch c)"
    and len: "length (tasks (c_queue c)) = length ts0"
    and fault: "fs_fault (c_world c) = fs_fault w0"
    and nth: "\<And>k. k < length ts0 \<Longrightarrow> tasks (c_queue c) ! k =
            (if k \<in> set (i # rest) then ts0 ! k
             else if k \<in> set (c_active c) then start_task (ts0 ! k)
             else if k \<in> set (c_batch c) then fst (process_task env (ts0 ! k, w0))
             else ts0 ! k)"
    using assms(1) by (simp_all add: batch_progress_def todo)
  have inr: "i \<notin> set rest" "i \<notin> set (c_active c)"
    using d by auto
  have "\<And>k. k < length ts0 \<Longrightarrow> tasks (c_queue c') ! k =
            (if k \<in> set rest then ts0 ! k
             else if k \<in> set (c_active c @ [i]) then start_task (ts0 ! k)
             else if k \<in> set (c_batch c) then fst (process_task env (ts0 ! k, w0))
             else ts0 ! k)"
  proof -
    fix k
    assume k: "k < length ts0"
    show "tasks (c_queue c') ! k =
            (if k \<in> set rest then ts0 ! k
             else if k \<in> set (c_active c @ [i]) then start_task (ts0 ! k)
             else if k \<in> set (c_batch c) then fst (process_task env (ts0 ! k, w0))
             else ts0 ! k)"
    proof (cases "k = i")
      case True
      then show ?thesis
        using k len inr nth [OF k] by (simp add: c' set_task_def)
    next
      case False
      then show ?thesis
        using k len nth [OF k] by (simp add: c' set_task_def)
    qed
  qed
  then show ?thesis
    using d sub len fault by (simp add: batch_progress_def c' set_task_def)
qed

lemma batch_progress_finish:
  assumes "batch_progress env ts0 w0 c" and "step env (Finish i) c = Some c'"
    and "\<forall>k\<in>set (c_batch c). k < length ts0"
  shows "batch_progress env ts0 w0 c'"
proof -
  have act: "i \<in> set (c_active c)"
    and c': "c' = c\<lparr>c_queue := set_task i (fst (finish_task env (tasks (c_queue c) ! i, c_world c)))
                                 (c_queue c),
                   c_world := snd (finish_task env (tasks (c_queue c) ! i, c_world c)),
                   c_active := removeAll i (c_active c)\<rparr>"
    using assms(2) by (auto split: if_splits)
  have d: "distinct (c_todo c @ c_active c)" and sub: "set (c_todo c) \<union> set (c_active c) \<subseteq> set (c_batch c)"
    and len: "length (tasks (c_queue c)) = length ts0"
    and fault: "fs_fault (c_world c) = fs_fault w0"
    and nth: "\<And>k. k < length ts0 \<Longrightarrow> tasks (c_queue c) ! k =
            (if k \<in> set (c_todo c) then ts0 ! k
             else if k \<in> set (c_active c) then start_task (ts0 ! k)
             else if k \<in> set (c_batch c) then fst (process_task env (ts0 ! k, w0))
             else ts0 ! k)"
    using assms(1) by (simp_all add: batch_progress_def)
  have ib: "i \<in> set (c_batch c)" and il: "i < length ts0"
    using act sub assms(3) by auto
  have it: "i \<notin> set (c_todo c)"
    using d act by auto
  have cur: "tasks (c_queue c) ! i = start_task (ts0 ! i)"
    using nth [OF il] it act by simp
  have fin: "fst (finish_task env (start_task (ts0 ! i), c_world c)) = fst (process_task env (ts0 ! i, w0))"
    using finish_task_fst_cong [OF fault, of env "start_task (ts0 ! i)"] by (simp add: process_task_def)
  have d': "distinct (c_todo c @ removeAll i (c_active c))"
    using d by (auto simp: distinct_removeAll)
  have "\<And>k. k < length ts0 \<Longrightarrow> tasks (c_queue c') ! k =
            (if k \<in> set (c_todo c) then ts0 ! k
             else if k \<in> set (removeAll i (c_active c)) then start_task (ts0 ! k)
             else if k \<in> set (c_batch c) then fst (process_task env (ts0 ! k, w0))
             else ts0 ! k)"
  proof -
    fix k
    assume k: "k < length ts0"
    show "tasks (c_queue c') ! k =
            (if k \<in> set (c_todo c) then ts0 ! k
             else if k \<in> set (removeAll i (c_active c)) then start_task (ts0 ! k)
             else if k \<in> set (c_batch c) then fst (process_task env (ts0 ! k, w0))
             else ts0 ! k)"
    proof (cases "k = i")
      case True
      then show ?thesis
        using k len it ib cur fin by (simp add: c' set_task_def)
    next
      case False
      then show ?thesis
        using k len nth [OF k] by (simp add: c' set_task_def)
    qed
  qed
  then show ?thesis
    using d' sub len fault finish_task_fs_fault [of env "tasks (c_queue c) ! i" "c_world c"]
    by (auto simp: batch_progress_def c' set_task_def)
qed

lemma step_batch_same: "e \<noteq> Select \<Longrightarrow> step env e c = Some c' \<Longrightarrow> c_batch c' = c_batch c"
  by (cases e) (auto split: list.splits if_splits)

lemma batch_progress_exec:
  assumes "Select \<notin> set es" and "batch_progress env ts0 w0 c"
    and "\<forall>k\<in>set (c_batch c). k < length ts0" and "exec env es c = Some c'"
  shows "batch_progress env ts0 w0 c' \<and> c_batch c' = c_batch c"
  using assms
proof (induction es arbitrary: c)
  case Nil
  then show ?case by simp
next
  case (Cons e es)
  then obtain c1 where s: "step env e c = Some c1" and r: "exec env es c1 = Some c'"
    by (auto split: option.splits)
  have ne: "e \<noteq> Select" and rest: "Select \<notin> set es"
    using Cons.prems(1) by auto
  have b1: "c_batch c1 = c_batch c"
    using step_batch_same [OF ne s] .
  have "batch_progress env ts0 w0 c1"
  proof (cases e)
    case Select
    then show ?thesis using ne by simp
  next
    case (Start i)
    then show ?thesis
      using batch_progress_start Cons.prems(2) s by blast
  next
    case (Finish i)
    then show ?thesis
      using batch_progress_finish Cons.prems(2,3) s by blast
  qed
  then show ?case
    using Cons.IH [of c1] rest r b1 Cons.prems(3) by simp
qed

text \<open>
  Whatever the order of the starts and ends of the coroutines of a batch, when the last
  one has ended the tasks of the queue are those that \<open>run_batch\<close> computes.
\<close>

lemma batch_schedule_independent:
  assumes "step env Select c0 = Some c1" and "Select \<notin> set es"
    and "exec env es c1 = Some c" and "c_todo c = []" and "c_active c = []"
  shows "tasks (c_queue c) = tasks (fst (run_batch env (c_queue c0, c_world c0, pr)))"
proof -
  let ?ts = "tasks (c_queue c0)"
  let ?b = "take 3 (pending_tasks ?ts)"
  have b1: "c_batch c1 = ?b"
    using assms(1) by (auto split: if_splits)
  have bd: "\<forall>k\<in>set (c_batch c1). k < length ?ts"
    unfolding b1 using pending_tasks_bound in_set_takeD by fast
  have "batch_progress env ?ts (c_world c0) c \<and> c_batch c = c_batch c1"
    using batch_progress_exec [OF assms(2) batch_progress_select [OF assms(1)] bd assms(3)] .
  then have len: "length (tasks (c_queue c)) = length ?ts"
    and nth: "\<And>i. i < length ?ts \<Longrightarrow> tasks (c_queue c) ! i =
        (if i \<in> set ?b then fst (process_task env (?ts ! i, c_world c0)) else ?ts ! i)"
    using assms(4,5) b1 by (simp_all add: batch_progress_def)
  show ?thesis
    using len nth by (simp add: list_eq_iff_nth_eq run_batch_length run_batch_nth)
qed

end
